theory Spec2Isabelle
  imports Main "HOL-Library.Char_ord" "HOL-Library.List_Lexorder"
begin

section \<open>Python string primitives\<close>

text \<open>
  Documents are Python \<open>str\<close> values.  They are modelled as \<^typ>\<open>string\<close>; a
  \<^typ>\<open>char\<close> stands for a code point below 256.  The predicates below are the
  restrictions of Python's \<open>str.isspace\<close> (which is also what \<open>\s\<close> matches in a
  \<open>str\<close> pattern), of the line boundaries of \<open>str.splitlines\<close> and of the word
  characters of \<open>\w\<close> (used by \<open>\b\<close>) to that range.
\<close>

definition py_isspace :: "char \<Rightarrow> bool" where
  "py_isspace c = (c \<in> set [CHR 0x09, CHR 0x0A, CHR 0x0B, CHR 0x0C, CHR 0x0D,
       CHR 0x1C, CHR 0x1D, CHR 0x1E, CHR 0x1F, CHR 0x20, CHR 0x85, CHR 0xA0])"


definition re_word :: "char \<Rightarrow> bool" where
  "re_word c = (let n = (of_char c :: nat) in
      (48 \<le> n \<and> n \<le> 57) \<or> (65 \<le> n \<and> n \<le> 90) \<or> n = 95 \<or> (97 \<le> n \<and> n \<le> 122)
      \<or> n = 170 \<or> n = 178 \<or> n = 179 \<or> n = 181 \<or> n = 185 \<or> n = 186
      \<or> (188 \<le> n \<and> n \<le> 190) \<or> (192 \<le> n \<and> n \<le> 214) \<or> (216 \<le> n \<and> n \<le> 246)
      \<or> (248 \<le> n \<and> n \<le> 255))"

definition starts_with :: "string \<Rightarrow> string \<Rightarrow> bool" where
  \<comment> \<open>\<open>s.startswith(p)\<close>\<close>
  "starts_with p s = (take (length p) s = p)"

definition py_lstrip :: "string \<Rightarrow> string" where
  "py_lstrip s = dropWhile py_isspace s"

definition py_rstrip :: "string \<Rightarrow> string" where
  "py_rstrip s = rev (dropWhile py_isspace (rev s))"

definition py_strip :: "string \<Rightarrow> string" where
  "py_strip s = py_lstrip (py_rstrip s)"



fun split_acc :: "string \<Rightarrow> string \<Rightarrow> string list" where
  "split_acc w [] = (if w = [] then [] else [w])"
| "split_acc w (c # cs) =
     (if py_isspace c then (if w = [] then split_acc [] cs else w # split_acc [] cs)
      else split_acc (w @ [c]) cs)"

definition py_split :: "string \<Rightarrow> string list" where
  \<comment> \<open>\<open>s.split()\<close>: the maximal runs of non-whitespace characters\<close>
  "py_split s = split_acc [] s"

definition replace_char :: "char \<Rightarrow> char \<Rightarrow> string \<Rightarrow> string" where
  \<comment> \<open>\<open>s.replace(a, b)\<close> for one-character \<open>a\<close> and \<open>b\<close>\<close>
  "replace_char a b s = map (\<lambda>c. if c = a then b else c) s"


section \<open>Naming (\<open>gen_tarballs.process_package\<close>, \<open>fix_specs.main\<close>)\<close>

definition name_hyphen :: "string \<Rightarrow> string" where
  "name_hyphen pkg_name = replace_char (CHR ''_'') (CHR ''-'') pkg_name"

definition ros_pkg_name :: "string \<Rightarrow> string \<Rightarrow> string" where
  "ros_pkg_name ros_distro pkg_name = ''ros-'' @ ros_distro @ ''-'' @ name_hyphen pkg_name"

definition tarball_name :: "string \<Rightarrow> string \<Rightarrow> string \<Rightarrow> string" where
  "tarball_name ros_distro pkg_name version =
     ros_pkg_name ros_distro pkg_name @ ''_'' @ version @ ''.orig.tar.gz''"

definition prefix_dir :: "string \<Rightarrow> string \<Rightarrow> string \<Rightarrow> string" where
  "prefix_dir ros_distro pkg_name version =
     ros_pkg_name ros_distro pkg_name @ ''-'' @ version"

definition rpm_name :: "string \<Rightarrow> string \<Rightarrow> string" where
  \<comment> \<open>\<open>fix_specs.main\<close>: \<open>pkg_hyphen = pkg_name.replace("_", "-")\<close>,
      \<open>rpm_name = f"ros-{args.ros_distro}-{pkg_hyphen}"\<close>\<close>
  "rpm_name ros_distro pkg_name =
     ''ros-'' @ ros_distro @ ''-'' @ replace_char (CHR ''_'') (CHR ''-'') pkg_name"

definition ros_prefix :: "string \<Rightarrow> string" where
  \<comment> \<open>\<open>fix_specs.main\<close>: \<open>ros_prefix = f"/opt/ros/{args.ros_distro}"\<close>\<close>
  "ros_prefix ros_distro = ''/opt/ros/'' @ ros_distro"


section \<open>Version resolver\<close>

text \<open>
  The manifest \<open>package.xml\<close> of a package root is either missing (\<open>os.path.exists\<close> is
  false), or present but rejected by the XML parser as not well-formed (\<open>ET.parse\<close> raises
  \<open>ET.ParseError\<close>), or present but such that \<open>ET.parse\<close> raises another exception
  (\<open>ValueError\<close> or \<open>LookupError\<close> for a declared encoding the parser does not support,
  \<open>OSError\<close> when \<open>package.xml\<close> is a directory or cannot be read), or parsed into an
  element tree.  A call either returns a value or lets an exception propagate to its caller.
\<close>

datatype xml_elem = Elem (etag: string) (etext: "string option") (echildren: "xml_elem list")

datatype manifest = NoFile | NotWellFormed | Unreadable | Parsed xml_elem

datatype warning = WarnNotDir | WarnNotFound | WarnParseFailed | WarnNoVersionTag

datatype exn = Uncaught

fun iter_elems :: "xml_elem \<Rightarrow> xml_elem list" where
  \<comment> \<open>\<open>root.iter()\<close>: the element itself, then its descendants, in document order\<close>
  "iter_elems (Elem t x cs) = Elem t x cs # concat (map iter_elems cs)"

definition ends_with :: "string \<Rightarrow> string \<Rightarrow> bool" where
  \<comment> \<open>\<open>s.endswith(p)\<close>\<close>
  "ends_with p s = (length p \<le> length s \<and> drop (length s - length p) s = p)"

fun scan_version :: "string option \<Rightarrow> xml_elem list \<Rightarrow> string option" where
  \<comment> \<open>the \<open>for elem in root.iter()\<close> loop; the first argument is \<open>version_text\<close>\<close>
  "scan_version v [] = v"
| "scan_version v (e # es) =
     (case etext e of
        Some x \<Rightarrow>
          (if ends_with ''version'' (etag e) \<and> x \<noteq> []
           then (if py_strip x \<noteq> [] then Some (py_strip x) else scan_version (Some (py_strip x)) es)
           else scan_version v es)
      | None \<Rightarrow> scan_version v es)"

definition read_version_from_package_xml :: "manifest \<Rightarrow> exn + string option \<times> warning list" where
  \<comment> \<open>\<open>gen_tarballs.read_version_from_package_xml\<close>: the result and what is printed to
      stderr; only \<open>ET.ParseError\<close> is caught\<close>
  "read_version_from_package_xml m =
     (case m of
        NoFile \<Rightarrow> Inr (None, [WarnNotFound])
      | NotWellFormed \<Rightarrow> Inr (None, [WarnParseFailed])
      | Unreadable \<Rightarrow> Inl Uncaught
      | Parsed root \<Rightarrow>
          (case scan_version None (iter_elems root) of
             None \<Rightarrow> Inr (None, [WarnNoVersionTag])
           | Some v \<Rightarrow> (if v = [] then Inr (None, [WarnNoVersionTag]) else Inr (Some v, []))))"

datatype status = GitOk | FallbackOk | SkippedExist | NoVersion | Failed

definition process_package_names ::
  "string \<Rightarrow> string \<Rightarrow> bool \<Rightarrow> manifest \<Rightarrow> exn + (status + string \<times> string) \<times> warning list" where
  \<comment> \<open>\<open>gen_tarballs.process_package\<close> up to the names of the archive and of its top-level
      directory; \<open>is_dir\<close> is \<open>os.path.isdir(pkg_root)\<close>\<close>
  "process_package_names ros_distro pkg_name is_dir m =
     (if \<not> is_dir then Inr (Inl Failed, [WarnNotDir])
      else (case read_version_from_package_xml m of
              Inl e \<Rightarrow> Inl e
            | Inr (None, ws) \<Rightarrow> Inr (Inl NoVersion, ws)
            | Inr (Some version, ws) \<Rightarrow>
                (if version = [] then Inr (Inl NoVersion, ws)
                 else Inr (Inr (tarball_name ros_distro pkg_name version,
                                prefix_dir ros_distro pkg_name version), ws))))"

fun findtext :: "string \<Rightarrow> string \<Rightarrow> xml_elem list \<Rightarrow> string" where
  \<comment> \<open>\<open>root.findtext(tag, default)\<close> over the direct children of the root\<close>
  "findtext t dflt [] = dflt"
| "findtext t dflt (e # es) =
     (if etag e = t then (case etext e of None \<Rightarrow> [] | Some x \<Rightarrow> x) else findtext t dflt es)"

definition parse_version :: "manifest \<Rightarrow> string \<times> warning list" where
  \<comment> \<open>\<open>legacy/split_legacy.parse_version\<close>: the result and what is printed (nothing);
      \<open>except Exception\<close> catches whatever \<open>ET.parse\<close> raises;
      \<open>re.sub(r"\s+", "", ver)\<close> deletes the whitespace\<close>
  "parse_version m =
     (case m of
        NoFile \<Rightarrow> (''0.0.0'', [])
      | NotWellFormed \<Rightarrow> (''0.0.0'', [])
      | Unreadable \<Rightarrow> (''0.0.0'', [])
      | Parsed root \<Rightarrow>
          (let ver = py_strip (findtext ''version'' ''0.0.0'' (echildren root));
               ver = filter (\<lambda>c. \<not> py_isspace c) ver
           in if ver \<noteq> [] then (ver, []) else (''0.0.0'', [])))"


section \<open>Package list loader (\<open>fix_specs.load_pkg_list\<close>)\<close>

text \<open>
  The file is given as the list of its lines.  The result is the list of entries together
  with the warnings printed to stderr, each with the number and the stripped text of the
  line it is about.
\<close>

fun load_pkg_list_from :: "nat \<Rightarrow> string list \<Rightarrow> (string \<times> string) list \<times> (nat \<times> string) list" where
  "load_pkg_list_from lineno [] = ([], [])"
| "load_pkg_list_from lineno (raw # rest) =
     (let line = py_strip raw;
          (result, warns) = load_pkg_list_from (Suc lineno) rest
      in if line = [] \<or> starts_with ''#'' line then (result, warns)
         else (let parts = py_split line
               in if length parts < 2 then (result, (lineno, line) # warns)
                  else ((parts ! 0, parts ! 1) # result, warns)))"

definition load_pkg_list :: "string list \<Rightarrow> (string \<times> string) list \<times> (nat \<times> string) list" where
  \<comment> \<open>\<open>enumerate(f, start=1)\<close>\<close>
  "load_pkg_list lines = load_pkg_list_from 1 lines"


section \<open>Regular expressions\<close>

text \<open>
  A pattern is modelled by a \<^emph>\<open>matcher\<close>: given the character before the position
  (\<open>None\<close> at the start of the text) and the text from the position on, it returns the
  length of the match that Python's backtracking search finds there, or \<open>None\<close>.
  \<open>re_search\<close> is \<open>pattern.search(text)\<close> and yields the start and the end of the leftmost
  match.  \<open>re_sub\<close> is \<open>pattern.sub(repl, text)\<close>: every non-overlapping match, from the
  left, is replaced; the second argument maps the matched text to what replaces it.  None of
  the patterns given to \<open>re_sub\<close> here can match the empty string.  A replacement is the
  text that Python's template stands for when the package name and the prefix put into it
  contain no backslash; the theorems about transforms that substitute assume that they
  contain none.
\<close>

type_synonym matcher = "char option \<Rightarrow> string \<Rightarrow> nat option"

fun re_search_from :: "matcher \<Rightarrow> char option \<Rightarrow> nat \<Rightarrow> string \<Rightarrow> (nat \<times> nat) option" where
  "re_search_from m prev i [] = (case m prev [] of Some n \<Rightarrow> Some (i, i + n) | None \<Rightarrow> None)"
| "re_search_from m prev i (c # cs) =
     (case m prev (c # cs) of
        Some n \<Rightarrow> Some (i, i + n)
      | None \<Rightarrow> re_search_from m (Some c) (Suc i) cs)"

definition re_search :: "matcher \<Rightarrow> string \<Rightarrow> (nat \<times> nat) option" where
  "re_search m text = re_search_from m None 0 text"

fun re_sub_from :: "matcher \<Rightarrow> (string \<Rightarrow> string) \<Rightarrow> char option \<Rightarrow> string \<Rightarrow> string" where
  "re_sub_from m rep prev [] = []"
| "re_sub_from m rep prev (c # cs) =
     (case m prev (c # cs) of
        None \<Rightarrow> c # re_sub_from m rep (Some c) cs
      | Some 0 \<Rightarrow> c # re_sub_from m rep (Some c) cs
      | Some (Suc n) \<Rightarrow>
          rep (take (Suc n) (c # cs)) @ re_sub_from m rep (Some ((c # cs) ! n)) (drop n cs))"

definition re_sub :: "matcher \<Rightarrow> (string \<Rightarrow> string) \<Rightarrow> string \<Rightarrow> string" where
  "re_sub m rep text = re_sub_from m rep None text"

definition at_bol :: "char option \<Rightarrow> bool" where
  \<comment> \<open>\<open>^\<close> under \<open>re.MULTILINE\<close>: at the start of the text or just after a newline\<close>
  "at_bol prev = (prev = None \<or> prev = Some (CHR 0x0A))"

definition at_boundary :: "string \<Rightarrow> bool" where
  \<comment> \<open>\<open>\b\<close> after a word character: the text ends or goes on with a non-word character\<close>
  "at_boundary s = (case s of [] \<Rightarrow> True | c # _ \<Rightarrow> \<not> re_word c)"

definition not_nl :: "char \<Rightarrow> bool" where
  "not_nl c = (c \<noteq> CHR 0x0A)"

fun contains :: "string \<Rightarrow> string \<Rightarrow> bool" where
  \<comment> \<open>\<open>p in s\<close>\<close>
  "contains p [] = (p = [])"
| "contains p (c # cs) = (starts_with p (c # cs) \<or> contains p cs)"

fun join_nl :: "string list \<Rightarrow> string" where
  \<comment> \<open>\<open>"\n".join(ls)\<close>\<close>
  "join_nl [] = []"
| "join_nl [l] = l"
| "join_nl (l # ls) = l @ CHR 0x0A # join_nl ls"






section \<open>The transforms of \<open>fix_specs.py\<close>\<close>

subsection \<open>\<open>ensure_bconds\<close>\<close>



subsection \<open>\<open>ensure_debug_disabled\<close>\<close>





subsection \<open>\<open>fix_name\<close>\<close>

definition m_name :: matcher where
  \<comment> \<open>\<open>^Name:\s*.*$\<close> under \<open>re.MULTILINE\<close>: \<open>\s*\<close> takes all the whitespace that follows
      (newlines too), \<open>.*\<close> the rest of the line it stops in\<close>
  "m_name prev s =
     (if at_bol prev \<and> starts_with ''Name:'' s
      then (let ws = takeWhile py_isspace (drop 5 s);
                r = dropWhile py_isspace (drop 5 s)
            in Some (5 + length ws + length (takeWhile not_nl r)))
      else None)"

definition name_replacement :: "string \<Rightarrow> string" where
  "name_replacement rpm = ''Name:           '' @ rpm"

definition fix_name :: "string \<Rightarrow> string \<Rightarrow> string" where
  "fix_name text rpm =
     (if re_search m_name text \<noteq> None then re_sub m_name (\<lambda>_. name_replacement rpm) text
      else name_replacement rpm @ [CHR 0x0A] @ text)"

subsection \<open>\<open>fix_source0\<close>\<close>

definition source_key :: "string \<Rightarrow> nat option" where
  \<comment> \<open>\<open>Source0?:\<close> at the start of the given text, with its length\<close>
  "source_key s =
     (if starts_with ''Source0:'' s then Some 8
      else if starts_with ''Source:'' s then Some 7 else None)"

definition m_source :: matcher where
  \<comment> \<open>\<open>^(Source0?:\s*).*$\<close> under \<open>re.MULTILINE\<close>\<close>
  "m_source prev s =
     (if at_bol prev
      then (case source_key s of
              Some k \<Rightarrow>
                (let ws = takeWhile py_isspace (drop k s);
                     r = dropWhile py_isspace (drop k s)
                 in Some (k + length ws + length (takeWhile not_nl r)))
            | None \<Rightarrow> None)
      else None)"

definition source_group1 :: "string \<Rightarrow> string" where
  \<comment> \<open>group 1 of a match of \<open>m_source\<close>\<close>
  "source_group1 matched =
     (case source_key matched of
        Some k \<Rightarrow> take (k + length (takeWhile py_isspace (drop k matched))) matched
      | None \<Rightarrow> [])"

definition source_value :: string where
  "source_value = ''%{name}_%{version}.orig.tar.gz''"

definition m_license :: matcher where
  \<comment> \<open>\<open>^(License:\s*.*)$\<close> under \<open>re.MULTILINE\<close>\<close>
  "m_license prev s =
     (if at_bol prev \<and> starts_with ''License:'' s
      then (let ws = takeWhile py_isspace (drop 8 s);
                r = dropWhile py_isspace (drop 8 s)
            in Some (8 + length ws + length (takeWhile not_nl r)))
      else None)"

definition fix_source0 :: "string \<Rightarrow> string" where
  "fix_source0 text =
     (if re_search m_source text \<noteq> None
      then re_sub m_source (\<lambda>matched. source_group1 matched @ source_value) text
      else (let new_line = ''Source0: '' @ source_value
            in case re_search m_license text of
                 Some (b, pos) \<Rightarrow> take pos text @ [CHR 0x0A] @ new_line @ drop pos text
               | None \<Rightarrow> py_rstrip text @ [CHR 0x0A] @ new_line @ [CHR 0x0A]))"

subsection \<open>\<open>fix_cmake_prefixes\<close>\<close>




subsection \<open>\<open>fix_py3_install\<close>\<close>








subsection \<open>\<open>inject_ros_pythonpath\<close>\<close>






subsection \<open>\<open>fix_files_section\<close>\<close>

definition m_changelog :: matcher where
  \<comment> \<open>\<open>^%changelog\b\<close> under \<open>re.MULTILINE\<close>\<close>
  "m_changelog prev s =
     (if at_bol prev \<and> starts_with ''%changelog'' s \<and> at_boundary (drop 10 s)
      then Some 10 else None)"




subsection \<open>\<open>patch_spec_text\<close>\<close>



section \<open>Fallback archiver (\<open>gen_tarballs.run_fallback_tar_archive\<close>)\<close>












section \<open>Positions and line starts\<close>

text \<open>
  \<open>prev_at s j\<close> is the character before position \<open>j\<close> of \<open>s\<close>, which is what a matcher is
  given when it is tried at \<open>j\<close>; \<open>prev_from\<close> is the same for a search that starts inside a
  text.  \<open>line_starts p prev s\<close> says that some line of \<open>s\<close> starts with \<open>p\<close>.  A matcher is
  a \<open>bol_matcher\<close> when its pattern starts with \<open>^\<close>.
\<close>

definition prev_from :: "char option \<Rightarrow> string \<Rightarrow> nat \<Rightarrow> char option" where
  "prev_from prev s j = (if j = 0 then prev else Some (s ! (j - 1)))"

definition prev_at :: "string \<Rightarrow> nat \<Rightarrow> char option" where
  "prev_at s j = (if j = 0 then None else Some (s ! (j - 1)))"

fun line_starts :: "string \<Rightarrow> char option \<Rightarrow> string \<Rightarrow> bool" where
  "line_starts p prev [] = (at_bol prev \<and> p = [])"
| "line_starts p prev (c # cs) =
     ((at_bol prev \<and> starts_with p (c # cs)) \<or> line_starts p (Some c) cs)"

definition bol_matcher :: "matcher \<Rightarrow> bool" where
  "bol_matcher m = ((\<forall>prev s. \<not> at_bol prev \<longrightarrow> m prev s = None)
                    \<and> (\<forall>s. m (Some (CHR 0x0A)) s = m None s))"





section \<open>Theorems\<close>

subsection \<open>Naming\<close>

text \<open>
  C6.  For package name \<open>foo_bar\<close>, distro \<open>jazzy\<close> and version \<open>1.2.3\<close> the canonical
  identifier (both as \<open>process_package\<close> and as \<open>fix_specs.main\<close> compute it) is
  \<open>ros-jazzy-foo-bar\<close>, the archive file name is \<open>ros-jazzy-foo-bar_1.2.3.orig.tar.gz\<close> and
  the top-level directory of the archive is \<open>ros-jazzy-foo-bar-1.2.3\<close>.
\<close>

theorem naming_foo_bar:
  "ros_pkg_name ''jazzy'' ''foo_bar'' = ''ros-jazzy-foo-bar''
   \<and> rpm_name ''jazzy'' ''foo_bar'' = ''ros-jazzy-foo-bar''
   \<and> tarball_name ''jazzy'' ''foo_bar'' ''1.2.3'' = ''ros-jazzy-foo-bar_1.2.3.orig.tar.gz''
   \<and> prefix_dir ''jazzy'' ''foo_bar'' ''1.2.3'' = ''ros-jazzy-foo-bar-1.2.3''"
  by (simp add: ros_pkg_name_def rpm_name_def tarball_name_def prefix_dir_def name_hyphen_def
      replace_char_def)

subsection \<open>Package list loader\<close>

lemma load_from_entries:
  "fst (load_pkg_list_from n lines)
   = map (\<lambda>l. (py_split l ! 0, py_split l ! 1))
       (filter (\<lambda>l. l \<noteq> [] \<and> \<not> starts_with ''#'' l \<and> 2 \<le> length (py_split l))
          (map py_strip lines))"
proof (induction lines arbitrary: n)
  case Nil
  then show ?case by simp
next
  case (Cons raw rest)
  obtain r w where rw: "load_pkg_list_from (Suc n) rest = (r, w)"
    by (cases "load_pkg_list_from (Suc n) rest")
  from Cons.IH[of "Suc n"] rw have r: "r = map (\<lambda>l. (py_split l ! 0, py_split l ! 1))
       (filter (\<lambda>l. l \<noteq> [] \<and> \<not> starts_with ''#'' l \<and> 2 \<le> length (py_split l))
          (map py_strip rest))" by simp
  show ?case unfolding load_pkg_list_from.simps rw r by (simp add: Let_def)
qed

lemma load_from_warnings:
  "snd (load_pkg_list_from n lines)
   = filter (\<lambda>(i, l). l \<noteq> [] \<and> \<not> starts_with ''#'' l \<and> length (py_split l) < 2)
       (enumerate n (map py_strip lines))"
proof (induction lines arbitrary: n)
  case Nil
  then show ?case by simp
next
  case (Cons raw rest)
  obtain r w where rw: "load_pkg_list_from (Suc n) rest = (r, w)"
    by (cases "load_pkg_list_from (Suc n) rest")
  from Cons.IH[of "Suc n"] rw have w: "w = filter (\<lambda>(i, l). l \<noteq> [] \<and> \<not> starts_with ''#'' l
            \<and> length (py_split l) < 2) (enumerate (Suc n) (map py_strip rest))" by simp
  show ?case unfolding load_pkg_list_from.simps rw w by (simp add: Let_def)
qed

text \<open>
  C10 (amended).  The loader strips every line and drops the blank lines and the lines
  whose stripped text starts with \<open>#\<close>, without a warning.  Of the remaining lines, those
  with two or more whitespace-separated fields (so also those with more than two) are
  accepted: the entries are, in the order of the file, exactly the pairs of the first and
  the second field of these lines, and the fields beyond the second appear nowhere.  The
  warnings are exactly the remaining lines with fewer than two fields, each with its line
  number, counted from 1, and its stripped text.
\<close>

theorem load_pkg_list_extra_fields:
  "load_pkg_list lines
   = (map (\<lambda>l. (py_split l ! 0, py_split l ! 1))
        (filter (\<lambda>l. l \<noteq> [] \<and> \<not> starts_with ''#'' l \<and> 2 \<le> length (py_split l))
           (map py_strip lines)),
      filter (\<lambda>(i, l). l \<noteq> [] \<and> \<not> starts_with ''#'' l \<and> length (py_split l) < 2)
        (enumerate 1 (map py_strip lines)))"
  unfolding load_pkg_list_def
  using load_from_entries[of 1 lines] load_from_warnings[of 1 lines]
  by (simp add: prod_eq_iff)

text \<open>
  A comment line with more than two fields is skipped, silently.
\<close>

theorem load_pkg_list_comment_counterexample:
  "2 < length (py_split (py_strip ''# pkg src/pkg extra''))
   \<and> load_pkg_list [''# pkg src/pkg extra''] = ([], [])"
  by (simp add: py_strip_def py_lstrip_def py_rstrip_def py_isspace_def py_split_def starts_with_def load_pkg_list_def)

subsection \<open>Version resolver\<close>

text \<open>
  C4 (amended).  For a package root whose manifest is missing or is rejected by the XML
  parser as not well-formed, \<open>read_version_from_package_xml\<close> prints a warning and returns
  \<open>None\<close>, on which \<open>process_package\<close>, called for a package root that is a directory,
  reports \<open>no-version\<close>.  The legacy resolver \<open>parse_version\<close> returns \<open>0.0.0\<close> for a
  manifest that is missing or cannot be parsed, and prints nothing.
\<close>

theorem version_fallback:
  "parse_version NoFile = (''0.0.0'', []) \<and> parse_version NotWellFormed = (''0.0.0'', [])
   \<and> parse_version Unreadable = (''0.0.0'', [])
   \<and> read_version_from_package_xml NoFile = Inr (None, [WarnNotFound])
   \<and> read_version_from_package_xml NotWellFormed = Inr (None, [WarnParseFailed])
   \<and> process_package_names ros_distro pkg_name True NoFile = Inr (Inl NoVersion, [WarnNotFound])
   \<and> process_package_names ros_distro pkg_name True NotWellFormed
       = Inr (Inl NoVersion, [WarnParseFailed])"
  by (simp add: parse_version_def read_version_from_package_xml_def process_package_names_def)

text \<open>
  The resolver of \<open>gen_tarballs.py\<close> does not return \<open>0.0.0\<close> there.
\<close>

theorem version_fallback_counterexample:
  "map_sum id fst (read_version_from_package_xml NoFile) \<noteq> Inr (Some ''0.0.0'')
   \<and> map_sum id fst (read_version_from_package_xml NotWellFormed) \<noteq> Inr (Some ''0.0.0'')"
  by (simp add: read_version_from_package_xml_def)

subsection \<open>Fallback archiver\<close>












subsection \<open>Searching\<close>

lemma sw_Nil [simp]: "starts_with [] s" by (simp add: starts_with_def)
lemma sw_Cons [simp]: "starts_with (a # p) (c # s) = (a = c \<and> starts_with p s)"
  by (auto simp: starts_with_def)
lemma sw_Cons_Nil [simp]: "\<not> starts_with (a # p) []" by (simp add: starts_with_def)

lemma sw_append_nl:
  "CHR 0x0A \<notin> set p \<Longrightarrow> Z = [] \<or> hd Z = CHR 0x0A \<Longrightarrow> starts_with p (X @ Z) = starts_with p X"
proof (induction p arbitrary: X)
  case Nil then show ?case by simp
next
  case (Cons a p)
  show ?case
  proof (cases X)
    case Nil
    with Cons.prems show ?thesis by (cases Z) auto
  next
    case (Cons c X')
    with Cons.prems Cons.IH[of X'] show ?thesis by simp
  qed
qed

lemma sw_mono: "starts_with p X \<Longrightarrow> starts_with p (X @ W)"
proof (induction p arbitrary: X)
  case Nil then show ?case by simp
next
  case (Cons a p)
  then show ?case by (cases X) simp_all
qed

lemma at_bol_simps [simp]: "at_bol None" "at_bol (Some c) = (c = CHR 0x0A)"
  by (auto simp: at_bol_def)

lemma ls_prev:
  assumes "at_bol prev = at_bol prev'"
  shows "line_starts p prev s = line_starts p prev' s"
  by (cases s) (simp_all only: line_starts.simps assms)

lemma ls_split:
  "p \<noteq> [] \<Longrightarrow> CHR 0x0A \<notin> set p \<Longrightarrow> Z = [] \<or> hd Z = CHR 0x0A \<Longrightarrow>
   line_starts p prev (X @ Z) = (line_starts p prev X \<or> line_starts p (Some (CHR 0x0A)) (tl Z))"
proof (induction X arbitrary: prev)
  case Nil
  then show ?case by (cases Z; cases p) auto
next
  case (Cons c X)
  from Cons.prems have "starts_with p ((c # X) @ Z) = starts_with p (c # X)"
    by (intro sw_append_nl) auto
  with Cons.IH[OF Cons.prems, of "Some c"] show ?case by auto
qed

lemma ls_mono: "p \<noteq> [] \<Longrightarrow> line_starts p prev X \<Longrightarrow> line_starts p prev (X @ W)"
proof (induction X arbitrary: prev)
  case Nil then show ?case by simp
next
  case (Cons c X)
  then show ?case using sw_mono[of p "c # X" W] by auto
qed

lemma ls_line:
  "p \<noteq> [] \<Longrightarrow> CHR 0x0A \<notin> set l \<Longrightarrow> line_starts p prev l = (at_bol prev \<and> starts_with p l)"
proof (induction l arbitrary: prev)
  case Nil then show ?case by (cases p) auto
next
  case (Cons c l)
  then show ?case by auto
qed

lemma search_shift:
  "re_search_from m prev i s = map_option (\<lambda>(a, b). (a + i, b + i)) (re_search_from m prev 0 s)"
proof (induction s arbitrary: prev i)
  case Nil then show ?case by (cases "m prev []") simp_all
next
  case (Cons c s)
  show ?case
  proof (cases "m prev (c # s)")
    case (Some n)
    then show ?thesis by simp
  next
    case None
    have a: "re_search_from m (Some c) (Suc i) s
               = map_option (\<lambda>(a, b). (a + Suc i, b + Suc i)) (re_search_from m (Some c) 0 s)"
      by (rule Cons.IH)
    have b: "re_search_from m (Some c) (Suc 0) s
               = map_option (\<lambda>(a, b). (a + Suc 0, b + Suc 0)) (re_search_from m (Some c) 0 s)"
      by (rule Cons.IH)
    show ?thesis
    proof (cases "re_search_from m (Some c) 0 s")
      case None
      with a b \<open>m prev (c # s) = None\<close> show ?thesis by simp
    next
      case (Some r)
      obtain x y where r: "r = (x, y)" by (cases r)
      from a b Some r \<open>m prev (c # s) = None\<close> show ?thesis by simp
    qed
  qed
qed

lemma bol_matcher_nl: "bol_matcher m \<Longrightarrow> m (Some (CHR 0x0A)) s = m None s"
  unfolding bol_matcher_def by blast

lemma bol_matcher_None: "bol_matcher m \<Longrightarrow> \<not> at_bol prev \<Longrightarrow> m prev s = None"
  unfolding bol_matcher_def by blast

lemma search_prev:
  assumes "bol_matcher m" "at_bol prev"
  shows "re_search_from m prev i s = re_search_from m None i s"
proof (cases prev)
  case None
  then show ?thesis by simp
next
  case (Some c)
  with assms(2) have c: "prev = Some (CHR 0x0A)" by simp
  show ?thesis unfolding c
    by (cases s) (simp_all only: re_search_from.simps bol_matcher_nl[OF assms(1)])
qed

lemma search_skip_nonbol:
  "bol_matcher m \<Longrightarrow> CHR 0x0A \<notin> set l \<Longrightarrow> \<not> at_bol prev \<Longrightarrow>
   re_search_from m prev i (l @ CHR 0x0A # rest)
     = re_search_from m (Some (CHR 0x0A)) (i + length l + 1) rest"
proof (induction l arbitrary: prev i)
  case Nil then show ?case by (simp add: bol_matcher_None)
next
  case (Cons c l)
  from Cons.prems have "m prev ((c # l) @ CHR 0x0A # rest) = None" by (simp add: bol_matcher_None)
  moreover have "re_search_from m (Some c) (Suc i) (l @ CHR 0x0A # rest)
     = re_search_from m (Some (CHR 0x0A)) (Suc i + length l + 1) rest"
    using Cons.prems by (intro Cons.IH) auto
  ultimately show ?case by simp
qed

lemma search_skip_line:
  assumes "bol_matcher m" "CHR 0x0A \<notin> set l" "m prev (l @ CHR 0x0A # rest) = None"
  shows "re_search_from m prev i (l @ CHR 0x0A # rest)
     = re_search_from m (Some (CHR 0x0A)) (i + length l + 1) rest"
proof (cases l)
  case Nil
  with assms show ?thesis by simp
next
  case (Cons c l')
  with assms have "re_search_from m (Some c) (Suc i) (l' @ CHR 0x0A # rest)
     = re_search_from m (Some (CHR 0x0A)) (Suc i + length l' + 1) rest"
    by (intro search_skip_nonbol) auto
  with Cons assms show ?thesis by simp
qed

lemma prev_from_0 [simp]: "prev_from prev s 0 = prev"
  by (simp add: prev_from_def)

lemma prev_from_Suc: "prev_from prev (c # s) (Suc j) = prev_from (Some c) s j"
  by (cases j) (simp_all add: prev_from_def)

lemma prev_from_None: "prev_from None s j = prev_at s j"
  by (simp add: prev_from_def prev_at_def)

lemma search_from_Some:
  "re_search_from m prev i s = Some (a, b) \<Longrightarrow>
     \<exists>j. a = i + j \<and> j \<le> length s \<and> m (prev_from prev s j) (drop j s) = Some (b - a)
         \<and> (\<forall>k<j. m (prev_from prev s k) (drop k s) = None)"
proof (induction s arbitrary: prev i)
  case Nil
  then have "a = i \<and> m prev [] = Some (b - a)" by (cases "m prev []") auto
  then show ?case by (intro exI[of _ 0]) simp
next
  case (Cons c s)
  show ?case
  proof (cases "m prev (c # s)")
    case (Some n)
    with Cons.prems have "a = i" "n = b - a" by auto
    with Some show ?thesis by (intro exI[of _ 0]) simp
  next
    case None
    with Cons.prems have r: "re_search_from m (Some c) (Suc i) s = Some (a, b)" by simp
    from Cons.IH[OF r] obtain j where
      j: "a = Suc i + j" "j \<le> length s" "m (prev_from (Some c) s j) (drop j s) = Some (b - a)"
         "\<forall>k<j. m (prev_from (Some c) s k) (drop k s) = None"
      by blast
    have "\<forall>k<Suc j. m (prev_from prev (c # s) k) (drop k (c # s)) = None"
    proof (intro allI impI)
      fix k assume k: "k < Suc j"
      show "m (prev_from prev (c # s) k) (drop k (c # s)) = None"
      proof (cases k)
        case 0
        with None show ?thesis by simp
      next
        case (Suc k')
        with k j(4) show ?thesis by (simp add: prev_from_Suc)
      qed
    qed
    with j(1,2,3) show ?thesis
      by (intro exI[of _ "Suc j"]) (simp add: prev_from_Suc)
  qed
qed

lemma search_from_None:
  "re_search_from m prev i s = None \<Longrightarrow> k \<le> length s \<Longrightarrow>
     m (prev_from prev s k) (drop k s) = None"
proof (induction s arbitrary: prev i k)
  case Nil
  then show ?case by (cases "m prev []") auto
next
  case (Cons c s)
  from Cons.prems(1) have n: "m prev (c # s) = None"
    by (cases "m prev (c # s)") auto
  with Cons.prems(1) have r: "re_search_from m (Some c) (Suc i) s = None" by simp
  show ?case
  proof (cases k)
    case 0
    with n show ?thesis by simp
  next
    case (Suc k')
    with Cons.prems(2) have "k' \<le> length s" by simp
    from Cons.IH[OF r this] Suc show ?thesis by (simp add: prev_from_Suc)
  qed
qed

lemma search_Some0:
  assumes "re_search m s = Some (a, b)"
  shows "a \<le> length s \<and> m (prev_at s a) (drop a s) = Some (b - a)
         \<and> (\<forall>k<a. m (prev_at s k) (drop k s) = None)"
  using search_from_Some[OF assms[unfolded re_search_def]] by (simp add: prev_from_None)

lemma search_None0:
  assumes "re_search m s = None" "k \<le> length s"
  shows "m (prev_at s k) (drop k s) = None"
  using search_from_None[OF assms(1)[unfolded re_search_def] assms(2)]
  by (simp add: prev_from_None)

lemma search_le:
  "re_search_from m prev i s = Some (a, b) \<Longrightarrow> i \<le> a \<and> a \<le> b"
proof (induction s arbitrary: prev i)
  case Nil
  then show ?case by (auto split: option.splits)
next
  case (Cons c s)
  show ?case
  proof (cases "m prev (c # s)")
    case (Some n)
    with Cons.prems show ?thesis by auto
  next
    case None
    with Cons.prems have "re_search_from m (Some c) (Suc i) s = Some (a, b)" by simp
    from Cons.IH[OF this] show ?thesis by simp
  qed
qed

subsection \<open>\<open>fix_files_section\<close>\<close>


lemma m_changelog_prev:
  "at_bol pv = at_bol pv' \<Longrightarrow> m_changelog pv s = m_changelog pv' s"
  unfolding m_changelog_def by (simp only:)






subsection \<open>\<open>fix_name\<close> and \<open>fix_source0\<close>\<close>

lemma search_None_line_starts:
  assumes "\<And>pv s. (m pv s = None) = (\<not> (at_bol pv \<and> starts_with p s))"
  shows "(re_search_from m prev i s = None) = (\<not> line_starts p prev s)"
proof (induction s arbitrary: prev i)
  case Nil
  have "(m prev [] = None) = (\<not> (at_bol prev \<and> starts_with p []))" by (rule assms)
  then show ?case by (cases "m prev []"; cases p) auto
next
  case (Cons c s)
  have k: "(m prev (c # s) = None) = (\<not> (at_bol prev \<and> starts_with p (c # s)))"
    by (rule assms)
  show ?case
  proof (cases "m prev (c # s)")
    case None
    with k Cons.IH[of "Some c" "Suc i"] show ?thesis by simp
  next
    case (Some n)
    with k show ?thesis by auto
  qed
qed

lemma m_name_None: "(m_name pv s = None) = (\<not> (at_bol pv \<and> starts_with ''Name:'' s))"
  by (simp add: m_name_def Let_def)

lemma no_name_line: "(re_search m_name s = None) = (\<not> line_starts ''Name:'' None s)"
  unfolding re_search_def by (rule search_None_line_starts) (rule m_name_None)

lemma bol_m_source: "bol_matcher m_source"
  by (simp add: bol_matcher_def m_source_def)

lemma bol_m_license: "bol_matcher m_license"
  by (simp add: bol_matcher_def m_license_def)

lemma search_after_line:
  assumes "bol_matcher m" "CHR 0x0A \<notin> set l" "m None (l @ CHR 0x0A # rest) = None"
  shows "re_search m (l @ CHR 0x0A # rest)
         = map_option (\<lambda>(a, b). (a + (length l + 1), b + (length l + 1))) (re_search m rest)"
proof -
  have "re_search m (l @ CHR 0x0A # rest)
        = re_search_from m (Some (CHR 0x0A)) (0 + length l + 1) rest"
    unfolding re_search_def by (rule search_skip_line[OF assms])
  also have "\<dots> = re_search_from m None (0 + length l + 1) rest"
    by (rule search_prev[OF assms(1)]) simp
  also have "\<dots> = map_option (\<lambda>(a, b). (a + (0 + length l + 1), b + (0 + length l + 1)))
                      (re_search_from m None 0 rest)"
    by (rule search_shift)
  finally show ?thesis by (simp add: re_search_def)
qed

lemma py_rstrip_append:
  assumes "\<exists>c\<in>set B. \<not> py_isspace c"
  shows "py_rstrip (A @ B) = A @ py_rstrip B"
proof -
  from assms obtain c where "c \<in> set (rev B)" "\<not> py_isspace c" by auto
  then have "dropWhile py_isspace (rev B @ rev A) = dropWhile py_isspace (rev B) @ rev A"
    by (rule dropWhile_append1)
  then show ?thesis by (simp add: py_rstrip_def)
qed

lemma py_rstrip_prefix: "\<exists>W. s = py_rstrip s @ W"
proof -
  have "rev (takeWhile py_isspace (rev s) @ dropWhile py_isspace (rev s)) = s"
    by (simp only: takeWhile_dropWhile_id rev_rev_ident)
  then have "rev (dropWhile py_isspace (rev s)) @ rev (takeWhile py_isspace (rev s)) = s"
    by (simp only: rev_append)
  then have "s = py_rstrip s @ rev (takeWhile py_isspace (rev s))"
    unfolding py_rstrip_def by (rule sym)
  then show ?thesis ..
qed

lemma m_license_end:
  assumes "m_license pv s = Some n"
  shows "drop n s = [] \<or> hd (drop n s) = CHR 0x0A"
proof -
  let ?ws = "takeWhile py_isspace (drop 8 s)"
  let ?r = "dropWhile py_isspace (drop 8 s)"
  from assms have n: "n = 8 + length ?ws + length (takeWhile not_nl ?r)"
    by (auto simp: m_license_def Let_def split: if_splits)
  have "drop (length ?ws) (drop 8 s) = ?r" by (rule dropWhile_eq_drop[symmetric])
  then have "drop (8 + length ?ws) s = ?r" by (simp add: add.commute)
  then have "drop (length (takeWhile not_nl ?r)) (drop (8 + length ?ws) s) = dropWhile not_nl ?r"
    by (simp only: dropWhile_eq_drop[symmetric])
  then have d: "drop n s = dropWhile not_nl ?r" unfolding n by (simp add: add.commute)
  show ?thesis
  proof (cases "dropWhile not_nl ?r = []")
    case True
    with d show ?thesis by simp
  next
    case False
    then have "\<not> not_nl (hd (dropWhile not_nl ?r))" by (rule hd_dropWhile)
    with d show ?thesis by (simp add: not_nl_def)
  qed
qed

lemma ls_new_line:
  assumes "Z = [] \<or> hd Z = CHR 0x0A"
  shows "line_starts ''Name:'' (Some (CHR 0x0A)) ((''Source0: '' @ source_value) @ Z)
         = line_starts ''Name:'' (Some (CHR 0x0A)) (tl Z)"
proof -
  have "line_starts ''Name:'' (Some (CHR 0x0A)) ((''Source0: '' @ source_value) @ Z)
        = (line_starts ''Name:'' (Some (CHR 0x0A)) (''Source0: '' @ source_value)
           \<or> line_starts ''Name:'' (Some (CHR 0x0A)) (tl Z))"
    using assms by (intro ls_split) simp_all
  moreover have "\<not> line_starts ''Name:'' (Some (CHR 0x0A)) (''Source0: '' @ source_value)"
    by (subst ls_line) (simp_all add: source_value_def)
  ultimately show ?thesis by simp
qed

lemma no_name_after_insert:
  assumes "\<not> line_starts ''Name:'' None (X @ Z0)" "Z0 = [] \<or> hd Z0 = CHR 0x0A"
  shows "re_search m_name (X @ CHR 0x0A # (''Source0: '' @ source_value) @ Z0) = None"
proof -
  have "line_starts ''Name:'' None (X @ Z0)
        = (line_starts ''Name:'' None X \<or> line_starts ''Name:'' (Some (CHR 0x0A)) (tl Z0))"
    using assms(2) by (intro ls_split) simp_all
  with assms(1) have a: "\<not> line_starts ''Name:'' None X"
    "\<not> line_starts ''Name:'' (Some (CHR 0x0A)) (tl Z0)" by simp_all
  have "line_starts ''Name:'' None (X @ CHR 0x0A # (''Source0: '' @ source_value) @ Z0)
        = (line_starts ''Name:'' None X
           \<or> line_starts ''Name:'' (Some (CHR 0x0A))
                (tl (CHR 0x0A # (''Source0: '' @ source_value) @ Z0)))"
    by (intro ls_split) simp_all
  with a ls_new_line[OF assms(2)] show ?thesis by (simp add: no_name_line)
qed

text \<open>
  C7 (amended).  For every document with no match of the \<open>Name:\<close> pattern and no match of
  the \<open>Source:\<close>/\<open>Source0:\<close> pattern that contains at least one character that is not
  whitespace, and every package name without a newline, \<open>fix_name\<close> followed by
  \<open>fix_source0\<close> gives the same document as \<open>fix_source0\<close> followed by \<open>fix_name\<close>.
\<close>

theorem fix_name_fix_source0_commute:
  assumes hn: "re_search m_name text = None"
    and hs: "re_search m_source text = None"
    and hw: "\<exists>c\<in>set text. \<not> py_isspace c"
    and hr: "CHR 0x0A \<notin> set rpm"
  shows "fix_source0 (fix_name text rpm) = fix_name (fix_source0 text) rpm"
proof -
  define N where "N = name_replacement rpm"
  define SL where "SL = ''Source0: '' @ source_value"
  have nN: "CHR 0x0A \<notin> set N" using hr by (simp add: N_def name_replacement_def)
  have mS: "m_source None (N @ CHR 0x0A # text) = None"
    by (simp add: N_def name_replacement_def m_source_def source_key_def)
  have mL: "m_license None (N @ CHR 0x0A # text) = None"
    by (simp add: N_def name_replacement_def m_license_def)
  have S1: "re_search m_source (N @ CHR 0x0A # text) = None"
    using search_after_line[OF bol_m_source nN mS] hs by simp
  have S2: "re_search m_license (N @ CHR 0x0A # text)
            = map_option (\<lambda>(a, b). (a + (length N + 1), b + (length N + 1)))
                (re_search m_license text)"
    by (rule search_after_line[OF bol_m_license nN mL])
  have fn: "fix_name text rpm = N @ CHR 0x0A # text"
    using hn by (simp add: fix_name_def N_def)
  have nl0: "\<not> line_starts ''Name:'' None text" using hn by (simp add: no_name_line)
  show ?thesis
  proof (cases "re_search m_license text")
    case None
    have L: "fix_source0 (N @ CHR 0x0A # text) = N @ CHR 0x0A # py_rstrip text @ CHR 0x0A # SL @ [CHR 0x0A]"
      using S1 S2 None py_rstrip_append[OF hw, of "N @ [CHR 0x0A]"]
      by (simp add: fix_source0_def SL_def)
    have R0: "fix_source0 text = py_rstrip text @ CHR 0x0A # SL @ [CHR 0x0A]"
      using hs None by (simp add: fix_source0_def SL_def)
    obtain W where W: "text = py_rstrip text @ W" using py_rstrip_prefix by blast
    have "\<not> line_starts ''Name:'' None (py_rstrip text)"
    proof
      assume "line_starts ''Name:'' None (py_rstrip text)"
      then have "line_starts ''Name:'' None (py_rstrip text @ W)" by (intro ls_mono) simp_all
      with W nl0 show False by simp
    qed
    moreover have "line_starts ''Name:'' None (py_rstrip text @ [CHR 0x0A])
        = (line_starts ''Name:'' None (py_rstrip text)
           \<or> line_starts ''Name:'' (Some (CHR 0x0A)) (tl [CHR 0x0A]))"
      by (intro ls_split) simp_all
    ultimately have "\<not> line_starts ''Name:'' None (py_rstrip text @ [CHR 0x0A])" by simp
    then have "re_search m_name (py_rstrip text @ CHR 0x0A
                  # (''Source0: '' @ source_value) @ [CHR 0x0A]) = None"
      by (rule no_name_after_insert) simp
    then have "re_search m_name (fix_source0 text) = None" unfolding R0 SL_def .
    then have R: "fix_name (fix_source0 text) rpm = N @ CHR 0x0A # fix_source0 text"
      by (simp add: fix_name_def N_def)
    show ?thesis unfolding fn L unfolding R unfolding R0 by simp
  next
    case (Some r)
    obtain b pos where r: "r = (b, pos)" by (cases r)
    from search_Some0[OF Some[unfolded r]] have
      "m_license (prev_at text b) (drop b text) = Some (pos - b)" by blast
    from m_license_end[OF this] search_le[OF Some[unfolded r re_search_def]]
    have e: "drop pos text = [] \<or> hd (drop pos text) = CHR 0x0A" by simp
    have L: "fix_source0 (N @ CHR 0x0A # text)
             = N @ CHR 0x0A # take pos text @ CHR 0x0A # SL @ drop pos text"
      using S1 S2 Some r by (simp add: fix_source0_def SL_def)
    have R0: "fix_source0 text = take pos text @ CHR 0x0A # SL @ drop pos text"
      using hs Some r by (simp add: fix_source0_def SL_def)
    have "\<not> line_starts ''Name:'' None (take pos text @ drop pos text)" using nl0 by simp
    then have "re_search m_name (take pos text @ CHR 0x0A
                  # (''Source0: '' @ source_value) @ drop pos text) = None"
      using e by (rule no_name_after_insert)
    then have "re_search m_name (fix_source0 text) = None" unfolding R0 SL_def .
    then have R: "fix_name (fix_source0 text) rpm = N @ CHR 0x0A # fix_source0 text"
      by (simp add: fix_name_def N_def)
    show ?thesis unfolding fn L unfolding R unfolding R0 by simp
  qed
qed

theorem fix_name_fix_source0_commute_witness:
  "fix_name (fix_source0 (''License: MIT'' @ [CHR 0x0A] @ ''%description'' @ [CHR 0x0A]))
     ''ros-jazzy-foo-bar''
   = ''Name:           ros-jazzy-foo-bar'' @ [CHR 0x0A] @ ''License: MIT'' @ [CHR 0x0A]
     @ ''Source0: %{name}_%{version}.orig.tar.gz'' @ [CHR 0x0A] @ ''%description'' @ [CHR 0x0A]"
proof -
  let ?D = "''License: MIT'' @ [CHR 0x0A] @ ''%description'' @ [CHR 0x0A]"
  have hn: "re_search m_name ?D = None" by code_simp
  have hs: "re_search m_source ?D = None" by code_simp
  have hw: "\<exists>c\<in>set ?D. \<not> py_isspace c" by (simp add: py_isspace_def)
  have hr: "CHR 0x0A \<notin> set ''ros-jazzy-foo-bar''" by simp
  have v: "fix_source0 (fix_name ?D ''ros-jazzy-foo-bar'')
           = ''Name:           ros-jazzy-foo-bar'' @ [CHR 0x0A] @ ''License: MIT'' @ [CHR 0x0A]
     @ ''Source0: %{name}_%{version}.orig.tar.gz'' @ [CHR 0x0A] @ ''%description'' @ [CHR 0x0A]"
    by code_simp
  from fix_name_fix_source0_commute[OF hn hs hw hr] v show ?thesis by simp
qed

text \<open>
  On the empty document the two orders differ: after \<open>fix_name\<close>, the \<open>rstrip\<close> of
  \<open>fix_source0\<close> removes the newline that ends the \<open>Name:\<close> line; in the other order an
  empty line stays between the two lines.
\<close>

theorem fix_name_fix_source0_commute_counterexample:
  "re_search m_name [] = None \<and> re_search m_source [] = None
   \<and> fix_source0 (fix_name [] ''ros-jazzy-foo-bar'')
       = ''Name:           ros-jazzy-foo-bar'' @ [CHR 0x0A]
         @ ''Source0: %{name}_%{version}.orig.tar.gz'' @ [CHR 0x0A]
   \<and> fix_name (fix_source0 []) ''ros-jazzy-foo-bar''
       = ''Name:           ros-jazzy-foo-bar'' @ [CHR 0x0A, CHR 0x0A]
         @ ''Source0: %{name}_%{version}.orig.tar.gz'' @ [CHR 0x0A]
   \<and> fix_source0 (fix_name [] ''ros-jazzy-foo-bar'')
       \<noteq> fix_name (fix_source0 []) ''ros-jazzy-foo-bar''"
  by code_simp

subsection \<open>\<open>inject_ros_pythonpath\<close>\<close>

lemma contains_Nil [simp]: "contains [] s"
  by (cases s) simp_all











subsection \<open>Substitution line by line\<close>

lemma sub_skip_nonbol:
  assumes nb: "\<And>pv s. \<not> at_bol pv \<Longrightarrow> m pv s = None"
  shows "CHR 0x0A \<notin> set l \<Longrightarrow> \<not> at_bol prev \<Longrightarrow>
         re_sub_from m rep prev l = l
         \<and> re_sub_from m rep prev (l @ CHR 0x0A # rest)
             = l @ CHR 0x0A # re_sub_from m rep (Some (CHR 0x0A)) rest"
proof (induction l arbitrary: prev)
  case Nil
  then show ?case by (simp add: nb)
next
  case (Cons c l)
  from Cons.prems have c: "\<not> at_bol (Some c)" "CHR 0x0A \<notin> set l" by auto
  from Cons.IH[OF c(2) c(1)] Cons.prems(2) show ?case by (simp add: nb)
qed

lemma sub_line_nomatch:
  assumes nb: "\<And>pv s. \<not> at_bol pv \<Longrightarrow> m pv s = None"
    and nl: "CHR 0x0A \<notin> set l"
    and n1: "m prev l = None"
    and n2: "m prev (l @ CHR 0x0A # rest) = None"
  shows "re_sub_from m rep prev l = l
         \<and> re_sub_from m rep prev (l @ CHR 0x0A # rest)
             = l @ CHR 0x0A # re_sub_from m rep (Some (CHR 0x0A)) rest"
proof (cases l)
  case Nil
  with n2 show ?thesis by simp
next
  case (Cons c l')
  with nl have c: "CHR 0x0A \<notin> set l'" "\<not> at_bol (Some c)" by auto
  from sub_skip_nonbol[of m l' "Some c" rep rest, OF nb c] n1 n2 Cons
  show ?thesis by simp
qed

lemma sub_line_match:
  assumes nb: "\<And>pv s. \<not> at_bol pv \<Longrightarrow> m pv s = None"
    and nl: "CHR 0x0A \<notin> set l" and ne: "l \<noteq> []"
    and n1: "m prev l = Some (length l)"
    and n2: "m prev (l @ CHR 0x0A # rest) = Some (length l)"
  shows "re_sub_from m rep prev l = rep l
         \<and> re_sub_from m rep prev (l @ CHR 0x0A # rest)
             = rep l @ CHR 0x0A # re_sub_from m rep (Some (CHR 0x0A)) rest"
proof -
  from ne obtain c cs where l: "l = c # cs" by (cases l) auto
  have a: "re_sub_from m rep prev l = rep l" using n1 unfolding l by simp
  have la: "(c # cs @ CHR 0x0A # rest) ! length cs = last (c # cs)"
    by (metis append_Cons last_conv_nth length_Cons diff_Suc_1 lessI list.distinct(1) nth_append)
  have "last (c # cs) \<in> set l" unfolding l by (rule last_in_set) simp
  with nl have "last (c # cs) \<noteq> CHR 0x0A" by auto
  then have nbl: "\<not> at_bol (Some (last (c # cs)))" by simp
  have "re_sub_from m rep prev (l @ CHR 0x0A # rest)
        = rep l @ re_sub_from m rep (Some (last (c # cs))) (CHR 0x0A # rest)"
    using n2 la unfolding l by simp
  also have "re_sub_from m rep (Some (last (c # cs))) (CHR 0x0A # rest)
             = CHR 0x0A # re_sub_from m rep (Some (CHR 0x0A)) rest"
    using nb[OF nbl] by simp
  finally show ?thesis using a by simp
qed

lemma sub_lines:
  assumes nb: "\<And>pv s. \<not> at_bol pv \<Longrightarrow> m pv s = None"
    and rule: "\<And>l Z pv. l \<in> set ls \<Longrightarrow> at_bol pv \<Longrightarrow> Z = [] \<or> hd Z = CHR 0x0A \<Longrightarrow>
                 m pv (l @ Z) = (if hit l then Some (length l) else None)"
    and nl: "\<And>l. l \<in> set ls \<Longrightarrow> CHR 0x0A \<notin> set l"
    and ne: "\<And>l. l \<in> set ls \<Longrightarrow> hit l \<Longrightarrow> l \<noteq> []"
    and bol: "at_bol prev"
  shows "re_sub_from m rep prev (join_nl ls)
         = join_nl (map (\<lambda>l. if hit l then rep l else l) ls)"
  using rule nl ne bol
proof (induction ls arbitrary: prev rule: join_nl.induct)
  case 1
  then show ?case by simp
next
  case (2 l)
  have r: "m prev l = (if hit l then Some (length l) else None)"
    using "2.prems"(1)[of l prev "[]"] "2.prems"(4) by simp
  have r2: "m prev (l @ CHR 0x0A # []) = (if hit l then Some (length l) else None)"
    using "2.prems"(1)[of l prev "[CHR 0x0A]"] "2.prems"(4) by simp
  have n: "CHR 0x0A \<notin> set l" using "2.prems"(2) by simp
  show ?case
  proof (cases "hit l")
    case True
    with "2.prems"(3) have "l \<noteq> []" by simp
    from sub_line_match[of m l prev "[]" rep, OF nb n this] r r2 True show ?thesis by simp
  next
    case False
    from sub_line_nomatch[of m l prev "[]" rep, OF nb n] r r2 False show ?thesis by simp
  qed
next
  case (3 l l' ls)
  let ?rest = "join_nl (l' # ls)"
  have r: "m prev l = (if hit l then Some (length l) else None)"
    using "3.prems"(1)[of l prev "[]"] "3.prems"(4) by simp
  have r2: "m prev (l @ CHR 0x0A # ?rest) = (if hit l then Some (length l) else None)"
    using "3.prems"(1)[of l prev "CHR 0x0A # ?rest"] "3.prems"(4) by simp
  have n: "CHR 0x0A \<notin> set l" using "3.prems"(2) by simp
  have IH: "re_sub_from m rep (Some (CHR 0x0A)) ?rest
            = join_nl (map (\<lambda>l. if hit l then rep l else l) (l' # ls))"
    using "3.prems" by (intro "3.IH") simp_all
  show ?case
  proof (cases "hit l")
    case True
    with "3.prems"(3) have "l \<noteq> []" by simp
    from sub_line_match[of m l prev ?rest rep, OF nb n this] r r2 True IH
    show ?thesis by simp
  next
    case False
    from sub_line_nomatch[of m l prev ?rest rep, OF nb n] r r2 False IH
    show ?thesis by simp
  qed
qed

lemma search_lines:
  assumes bm: "bol_matcher m"
    and rule: "\<And>l Z pv. l \<in> set ls \<Longrightarrow> at_bol pv \<Longrightarrow> Z = [] \<or> hd Z = CHR 0x0A \<Longrightarrow>
                 m pv (l @ Z) = (if hit l then Some (length l) else None)"
    and nl: "\<And>l. l \<in> set ls \<Longrightarrow> CHR 0x0A \<notin> set l"
    and bol: "at_bol prev"
    and ex: "\<exists>l\<in>set ls. hit l"
  shows "re_search_from m prev i (join_nl ls) \<noteq> None"
  using rule nl bol ex
proof (induction ls arbitrary: prev i rule: join_nl.induct)
  case 1
  then show ?case by simp
next
  case (2 l)
  then have h: "hit l" by simp
  have "m prev l = (if hit l then Some (length l) else None)"
    using "2.prems"(1)[of l prev "[]"] "2.prems"(3) by simp
  with h show ?case by (cases l) simp_all
next
  case (3 l l' ls)
  let ?rest = "join_nl (l' # ls)"
  have r2: "m prev (l @ CHR 0x0A # ?rest) = (if hit l then Some (length l) else None)"
    using "3.prems"(1)[of l prev "CHR 0x0A # ?rest"] "3.prems"(3) by simp
  show ?case
  proof (cases "hit l")
    case True
    with r2 show ?thesis by (cases "l @ CHR 0x0A # ?rest") simp_all
  next
    case False
    with "3.prems"(4) have ex': "\<exists>l\<in>set (l' # ls). hit l" by auto
    have IH: "re_search_from m (Some (CHR 0x0A)) (i + length l + 1) ?rest \<noteq> None"
      using "3.prems"(1,2) ex' by (intro "3.IH") simp_all
    have n: "CHR 0x0A \<notin> set l" using "3.prems"(2) by simp
    from r2 False have "m prev (l @ CHR 0x0A # ?rest) = None" by simp
    from search_skip_line[OF bm n this, of i] IH show ?thesis by simp
  qed
qed

lemma line_span:
  assumes k: "k \<le> length l" and v: "\<exists>c\<in>set (drop k l). \<not> py_isspace c"
    and nl: "CHR 0x0A \<notin> set l" and Z: "Z = [] \<or> hd Z = CHR 0x0A"
  shows "k + length (takeWhile py_isspace (drop k (l @ Z)))
           + length (takeWhile not_nl (dropWhile py_isspace (drop k (l @ Z)))) = length l"
proof -
  let ?v = "drop k l"
  from k have d: "drop k (l @ Z) = ?v @ Z" by simp
  from v obtain c where c: "c \<in> set ?v" "\<not> py_isspace c" by blast
  have t: "takeWhile py_isspace (?v @ Z) = takeWhile py_isspace ?v"
    using c by (rule takeWhile_append1)
  have dw: "dropWhile py_isspace (?v @ Z) = dropWhile py_isspace ?v @ Z"
    using c by (rule dropWhile_append1)
  have "\<And>x. x \<in> set (dropWhile py_isspace ?v) \<Longrightarrow> not_nl x"
  proof -
    fix x assume "x \<in> set (dropWhile py_isspace ?v)"
    then have "x \<in> set l" by (meson in_set_dropD set_dropWhileD)
    with nl show "not_nl x" by (auto simp: not_nl_def)
  qed
  then have "takeWhile not_nl (dropWhile py_isspace ?v @ Z)
             = dropWhile py_isspace ?v @ takeWhile not_nl Z"
    by (rule takeWhile_append2)
  moreover have "takeWhile not_nl Z = []" using Z by (cases Z) (auto simp: not_nl_def)
  ultimately have tn: "takeWhile not_nl (dropWhile py_isspace ?v @ Z) = dropWhile py_isspace ?v"
    by simp
  have "length (takeWhile py_isspace ?v) + length (dropWhile py_isspace ?v) = length ?v"
    by (metis length_append takeWhile_dropWhile_id)
  with k show ?thesis unfolding d t dw tn by simp
qed

lemma bol_m_name: "bol_matcher m_name"
  by (simp add: bol_matcher_def m_name_def)

lemma bol_at:
  assumes "bol_matcher m" "at_bol pv"
  shows "m pv s = m None s"
proof (cases pv)
  case None then show ?thesis by simp
next
  case (Some c)
  with assms(2) have "pv = Some (CHR 0x0A)" by simp
  then show ?thesis by (simp add: bol_matcher_nl[OF assms(1)])
qed

lemma sw_length: "starts_with p l \<Longrightarrow> length p \<le> length l"
  unfolding starts_with_def by (metis length_take min.cobounded1)

lemma m_name_line:
  assumes nl: "CHR 0x0A \<notin> set l"
    and v: "starts_with ''Name:'' l \<longrightarrow> (\<exists>c\<in>set (drop 5 l). \<not> py_isspace c)"
    and bol: "at_bol pv" and Z: "Z = [] \<or> hd Z = CHR 0x0A"
  shows "m_name pv (l @ Z) = (if starts_with ''Name:'' l then Some (length l) else None)"
proof -
  have sw: "starts_with ''Name:'' (l @ Z) = starts_with ''Name:'' l"
    using Z by (intro sw_append_nl) simp_all
  show ?thesis
  proof (cases "starts_with ''Name:'' l")
    case False
    with sw show ?thesis by (simp add: m_name_def)
  next
    case True
    from sw_length[OF True] have k: "5 \<le> length l" by simp
    from True v have "\<exists>c\<in>set (drop 5 l). \<not> py_isspace c" by simp
    from line_span[OF k this nl Z] True sw bol k show ?thesis
      by (simp add: m_name_def Let_def)
  qed
qed

lemma source_key_append:
  assumes "Z = [] \<or> hd Z = CHR 0x0A"
  shows "source_key (l @ Z) = source_key l"
proof -
  have "starts_with ''Source0:'' (l @ Z) = starts_with ''Source0:'' l"
    using assms by (intro sw_append_nl) simp_all
  moreover have "starts_with ''Source:'' (l @ Z) = starts_with ''Source:'' l"
    using assms by (intro sw_append_nl) simp_all
  ultimately show ?thesis by (simp add: source_key_def)
qed

lemma source_key_length: "source_key l = Some k \<Longrightarrow> k \<le> length l"
  unfolding source_key_def using sw_length[of "''Source0:''" l] sw_length[of "''Source:''" l]
  by (auto split: if_splits)

lemma m_source_line:
  assumes nl: "CHR 0x0A \<notin> set l"
    and v: "\<forall>k. source_key l = Some k \<longrightarrow> (\<exists>c\<in>set (drop k l). \<not> py_isspace c)"
    and bol: "at_bol pv" and Z: "Z = [] \<or> hd Z = CHR 0x0A"
  shows "m_source pv (l @ Z) = (if source_key l \<noteq> None then Some (length l) else None)"
proof (cases "source_key l")
  case None
  with source_key_append[OF Z, of l] bol show ?thesis by (simp add: m_source_def)
next
  case (Some k)
  from source_key_length[OF Some] have k: "k \<le> length l" .
  from Some v have "\<exists>c\<in>set (drop k l). \<not> py_isspace c" by simp
  from line_span[OF k this nl Z] Some source_key_append[OF Z, of l] bol k show ?thesis
    by (simp add: m_source_def Let_def)
qed

lemma fix_name_lines:
  assumes nl: "\<forall>l\<in>set ls. CHR 0x0A \<notin> set l"
    and v: "\<forall>l\<in>set ls. starts_with ''Name:'' l \<longrightarrow> (\<exists>c\<in>set (drop 5 l). \<not> py_isspace c)"
    and ex: "\<exists>l\<in>set ls. starts_with ''Name:'' l"
  shows "fix_name (join_nl ls) rpm
         = join_nl (map (\<lambda>l. if starts_with ''Name:'' l then name_replacement rpm else l) ls)"
proof -
  have rule: "\<And>l Z pv. l \<in> set ls \<Longrightarrow> at_bol pv \<Longrightarrow> Z = [] \<or> hd Z = CHR 0x0A \<Longrightarrow>
      m_name pv (l @ Z) = (if starts_with ''Name:'' l then Some (length l) else None)"
    using nl v by (intro m_name_line) auto
  have nl': "\<And>l. l \<in> set ls \<Longrightarrow> CHR 0x0A \<notin> set l" using nl by simp
  have b0: "at_bol None" by simp
  have ne: "\<And>l. l \<in> set ls \<Longrightarrow> starts_with ''Name:'' l \<Longrightarrow> l \<noteq> []" by auto
  have "re_search_from m_name None 0 (join_nl ls) \<noteq> None"
    by (rule search_lines[OF bol_m_name rule nl' b0 ex])
  moreover have "re_sub_from m_name (\<lambda>_. name_replacement rpm) None (join_nl ls)
        = join_nl (map (\<lambda>l. if starts_with ''Name:'' l then name_replacement rpm else l) ls)"
    by (rule sub_lines[OF bol_matcher_None[OF bol_m_name] rule nl' ne b0])
  ultimately show ?thesis by (simp add: fix_name_def re_search_def re_sub_def)
qed

lemma fix_source0_lines:
  assumes nl: "\<forall>l\<in>set ls. CHR 0x0A \<notin> set l"
    and v: "\<forall>l\<in>set ls. \<forall>k. source_key l = Some k \<longrightarrow> (\<exists>c\<in>set (drop k l). \<not> py_isspace c)"
    and ex: "\<exists>l\<in>set ls. source_key l \<noteq> None"
  shows "fix_source0 (join_nl ls)
         = join_nl (map (\<lambda>l. if source_key l \<noteq> None then source_group1 l @ source_value else l) ls)"
proof -
  have rule: "\<And>l Z pv. l \<in> set ls \<Longrightarrow> at_bol pv \<Longrightarrow> Z = [] \<or> hd Z = CHR 0x0A \<Longrightarrow>
      m_source pv (l @ Z) = (if source_key l \<noteq> None then Some (length l) else None)"
    using nl v by (intro m_source_line) auto
  have nl': "\<And>l. l \<in> set ls \<Longrightarrow> CHR 0x0A \<notin> set l" using nl by simp
  have b0: "at_bol None" by simp
  have ne: "\<And>l. l \<in> set ls \<Longrightarrow> source_key l \<noteq> None \<Longrightarrow> l \<noteq> []"
    by (auto simp: source_key_def)
  have "re_search_from m_source None 0 (join_nl ls) \<noteq> None"
    by (rule search_lines[OF bol_m_source rule nl' b0 ex])
  moreover have "re_sub_from m_source (\<lambda>matched. source_group1 matched @ source_value) None
          (join_nl ls)
        = join_nl (map (\<lambda>l. if source_key l \<noteq> None then source_group1 l @ source_value else l) ls)"
    by (rule sub_lines[OF bol_matcher_None[OF bol_m_source] rule nl' ne b0])
  ultimately show ?thesis by (simp add: fix_source0_def re_search_def re_sub_def)
qed

text \<open>
  C3 (amended).  \<open>fix_name\<close> and \<open>fix_source0\<close> replace every match, not only the first.
  For a document given by its lines (joined by newlines) and a package name without a
  backslash: if every line that starts with
  \<open>Name:\<close> has a character that is not whitespace after the colon, and there is such a
  line, then \<open>fix_name\<close> replaces each of these lines by the canonical \<open>Name:\<close> line and
  leaves every other line as it is.  If every line that starts with \<open>Source0:\<close> or
  \<open>Source:\<close> has a character that is not whitespace after the colon, and there is such a
  line, then \<open>fix_source0\<close> replaces the value of each of these lines by the canonical
  archive name, keeps the key and the whitespace after it, and leaves every other line as
  it is.
\<close>

theorem fix_name_fix_source0_replace_all:
  assumes "\<forall>l\<in>set ls. CHR 0x0A \<notin> set l"
    and "CHR 0x5C \<notin> set rpm"
  shows "((\<forall>l\<in>set ls. starts_with ''Name:'' l \<longrightarrow> (\<exists>c\<in>set (drop 5 l). \<not> py_isspace c))
          \<and> (\<exists>l\<in>set ls. starts_with ''Name:'' l)
          \<longrightarrow> fix_name (join_nl ls) rpm
              = join_nl (map (\<lambda>l. if starts_with ''Name:'' l then name_replacement rpm else l) ls))
       \<and> ((\<forall>l\<in>set ls. \<forall>k. source_key l = Some k \<longrightarrow> (\<exists>c\<in>set (drop k l). \<not> py_isspace c))
          \<and> (\<exists>l\<in>set ls. source_key l \<noteq> None)
          \<longrightarrow> fix_source0 (join_nl ls)
              = join_nl (map (\<lambda>l. if source_key l \<noteq> None
                                   then source_group1 l @ source_value else l) ls))"
  using fix_name_lines[OF assms(1)] fix_source0_lines[OF assms(1)] by blast

theorem fix_name_fix_source0_replace_all_witness:
  "fix_name (join_nl [''Name: a'', ''Source:  x'', ''Name: b'', ''Source0: y''])
       ''ros-jazzy-foo-bar''
     = join_nl [''Name:           ros-jazzy-foo-bar'', ''Source:  x'',
                ''Name:           ros-jazzy-foo-bar'', ''Source0: y'']
   \<and> fix_source0 (join_nl [''Name: a'', ''Source:  x'', ''Name: b'', ''Source0: y''])
     = join_nl [''Name: a'', ''Source:  %{name}_%{version}.orig.tar.gz'', ''Name: b'',
                ''Source0: %{name}_%{version}.orig.tar.gz'']"
proof -
  let ?ls = "[''Name: a'', ''Source:  x'', ''Name: b'', ''Source0: y'']"
  have h0: "\<forall>l\<in>set ?ls. CHR 0x0A \<notin> set l" by simp
  have h1: "\<forall>l\<in>set ?ls. starts_with ''Name:'' l \<longrightarrow> (\<exists>c\<in>set (drop 5 l). \<not> py_isspace c)"
    by (simp add: py_isspace_def)
  have h2: "\<exists>l\<in>set ?ls. starts_with ''Name:'' l" by simp
  have h3: "\<forall>l\<in>set ?ls. \<forall>k. source_key l = Some k
              \<longrightarrow> (\<exists>c\<in>set (drop k l). \<not> py_isspace c)"
    by (simp add: source_key_def py_isspace_def)
  have h4: "\<exists>l\<in>set ?ls. source_key l \<noteq> None" by (simp add: source_key_def)
  have h5: "CHR 0x5C \<notin> set ''ros-jazzy-foo-bar''" by simp
  note t = fix_name_fix_source0_replace_all[OF h0 h5]
  from t h1 h2 have a: "fix_name (join_nl ?ls) ''ros-jazzy-foo-bar''
      = join_nl (map (\<lambda>l. if starts_with ''Name:'' l
                           then name_replacement ''ros-jazzy-foo-bar'' else l) ?ls)" by blast
  from t h3 h4 have b: "fix_source0 (join_nl ?ls)
      = join_nl (map (\<lambda>l. if source_key l \<noteq> None
                                   then source_group1 l @ source_value else l) ?ls)" by blast
  have a': "map (\<lambda>l. if starts_with ''Name:'' l
                           then name_replacement ''ros-jazzy-foo-bar'' else l) ?ls
            = [''Name:           ros-jazzy-foo-bar'', ''Source:  x'',
                ''Name:           ros-jazzy-foo-bar'', ''Source0: y'']"
    by (simp add: name_replacement_def)
  have b': "map (\<lambda>l. if source_key l \<noteq> None then source_group1 l @ source_value else l) ?ls
            = [''Name: a'', ''Source:  %{name}_%{version}.orig.tar.gz'', ''Name: b'',
                ''Source0: %{name}_%{version}.orig.tar.gz'']"
    by (simp add: source_key_def source_group1_def source_value_def py_isspace_def)
  from a b show ?thesis unfolding a' b' by blast
qed

text \<open>
  With two \<open>Name:\<close> lines the second one is rewritten too, and likewise for two
  \<open>Source0:\<close> lines.
\<close>

theorem fix_name_fix_source0_replace_all_counterexample:
  "fix_name (''Name: a'' @ [CHR 0x0A] @ ''Name: b'') ''ros-jazzy-foo-bar''
     = ''Name:           ros-jazzy-foo-bar'' @ [CHR 0x0A] @ ''Name:           ros-jazzy-foo-bar''
   \<and> fix_name (''Name: a'' @ [CHR 0x0A] @ ''Name: b'') ''ros-jazzy-foo-bar''
     \<noteq> ''Name:           ros-jazzy-foo-bar'' @ [CHR 0x0A] @ ''Name: b''
   \<and> fix_source0 (''Source0: a'' @ [CHR 0x0A] @ ''Source0: b'')
     = ''Source0: %{name}_%{version}.orig.tar.gz'' @ [CHR 0x0A]
       @ ''Source0: %{name}_%{version}.orig.tar.gz''"
  by code_simp

subsection \<open>The \<open>%files\<close> block and the debug directive\<close>





lemma py_rstrip_nl_last: "last (py_rstrip s @ [CHR 0x0A, CHR 0x0A]) = CHR 0x0A"
  by simp





subsection \<open>Idempotence\<close>













end
